theory Spec2Isabelle
  imports Main
begin

section \<open>z80count: cycle-count annotation of Z80 assembly lines\<close>

text \<open>
  A shallow embedding of \<^verbatim>\<open>z80count/z80count.py\<close>. Python strings are modelled as
  \<^typ>\<open>string\<close>, one \<^typ>\<open>char\<close> per code point, so the model covers text whose code
  points are below 256. Python integers are \<^typ>\<open>int\<close>. Every exception the code can
  raise is a value of \<open>error\<close>, returned on the left of a sum.
\<close>

datatype error = ZeroDivisionError | ValueError | KeyError | IndexError | AssertionError

subsection \<open>Characters\<close>

text \<open>
  \<open>is_space\<close> is the set matched by \<^verbatim>\<open>\s\<close> in a str pattern and stripped by
  \<^verbatim>\<open>str.strip()\<close>: below 256 these are the code points 9--13, 28--32, 133 and 160.
  \<open>is_digit\<close> is \<^verbatim>\<open>\d\<close> and the digits \<^verbatim>\<open>int()\<close> reads; \<open>is_word\<close> is \<^verbatim>\<open>\w\<close>: the
  alphanumeric code points and the underscore.
\<close>

definition is_space :: "char \<Rightarrow> bool" where
  "is_space c = (let n = (of_char c :: nat) in
     (9 \<le> n \<and> n \<le> 13) \<or> (28 \<le> n \<and> n \<le> 32) \<or> n = 133 \<or> n = 160)"

definition is_digit :: "char \<Rightarrow> bool" where
  "is_digit c = (let n = (of_char c :: nat) in 48 \<le> n \<and> n \<le> 57)"

definition is_word :: "char \<Rightarrow> bool" where
  "is_word c = (let n = (of_char c :: nat) in
     (48 \<le> n \<and> n \<le> 57) \<or> (65 \<le> n \<and> n \<le> 90) \<or> n = 95 \<or> (97 \<le> n \<and> n \<le> 122) \<or>
     n = 170 \<or> n = 178 \<or> n = 179 \<or> n = 181 \<or> n = 185 \<or> n = 186 \<or>
     (188 \<le> n \<and> n \<le> 190) \<or> (192 \<le> n \<and> n \<le> 214) \<or> (216 \<le> n \<and> n \<le> 246) \<or> 248 \<le> n)"

text \<open>
  The other case of a cased character, for matching under \<^verbatim>\<open>re.I\<close>: A--Z and a--z,
  and the accented letters 192--222 and 224--254 (without the multiplication and division
  signs). The characters 181, 223 and 255 have no other case below 256.
\<close>

definition swapcase :: "char \<Rightarrow> char" where
  "swapcase c = (let n = (of_char c :: nat) in
     if (65 \<le> n \<and> n \<le> 90) \<or> (192 \<le> n \<and> n \<le> 222 \<and> n \<noteq> 215) then char_of (n + 32)
     else if (97 \<le> n \<and> n \<le> 122) \<or> (224 \<le> n \<and> n \<le> 254 \<and> n \<noteq> 247) then char_of (n - 32)
     else c)"

text \<open>
  \<^verbatim>\<open>str.upper()\<close>. The sharp s (223) becomes \<^verbatim>\<open>SS\<close>. The upper-case forms of 181 and
  255 lie above 255; the model leaves these two characters in place, which keeps them
  apart from every other result of \<open>upper\<close>, since no upper-cased string contains them.
\<close>

definition upper_char :: "char \<Rightarrow> string" where
  "upper_char c = (let n = (of_char c :: nat) in
     if (97 \<le> n \<and> n \<le> 122) \<or> (224 \<le> n \<and> n \<le> 254 \<and> n \<noteq> 247) then [char_of (n - 32)]
     else if n = 223 then ''SS''
     else [c])"

definition upper :: "string \<Rightarrow> string" where
  "upper s = concat (map upper_char s)"

subsection \<open>String methods\<close>

text \<open>\<^verbatim>\<open>s.lstrip()\<close> and \<^verbatim>\<open>s.rstrip()\<close> without arguments.\<close>

definition lstrip :: "string \<Rightarrow> string" where
  "lstrip s = dropWhile is_space s"

definition rstrip :: "string \<Rightarrow> string" where
  "rstrip s = rev (dropWhile is_space (rev s))"

text \<open>\<^verbatim>\<open>s.split(sep)\<close> for a separator of one character: never an empty list.\<close>

fun str_split :: "char \<Rightarrow> string \<Rightarrow> string list" where
  "str_split sep [] = [[]]"
| "str_split sep (c # cs) =
     (if c = sep then [] # str_split sep cs
      else (case str_split sep cs of
              [] \<Rightarrow> [[c]]
            | x # xs \<Rightarrow> (c # x) # xs))"

text \<open>
  \<^verbatim>\<open>s.rsplit(sep, 1)\<close> for a separator of one character: the text before the last
  separator and the text after it, or the whole string alone when it has no separator.
\<close>

definition rsplit1 :: "char \<Rightarrow> string \<Rightarrow> string list" where
  "rsplit1 sep s =
     (if sep \<in> set s
      then [rev (tl (dropWhile (\<lambda>c. c \<noteq> sep) (rev s))), rev (takeWhile (\<lambda>c. c \<noteq> sep) (rev s))]
      else [s])"

text \<open>
  \<^verbatim>\<open>s.replace(old, new)\<close>: every occurrence of \<open>old\<close>, left to right and without
  overlap. An empty \<open>old\<close> matches before every character and at the end.
\<close>

function replace :: "string \<Rightarrow> string \<Rightarrow> string \<Rightarrow> string" where
  "replace s old new =
     (if old = [] then new @ concat (map (\<lambda>c. c # new) s)
      else if s = [] then []
      else if take (length old) s = old then new @ replace (drop (length old) s) old new
      else hd s # replace (tl s) old new)"
  by pat_completeness auto
termination
  by (relation "measure (\<lambda>(s, old, new). length s)") auto

text \<open>
  The decimal numeral of an integer, with a minus sign when negative, and
  \<^verbatim>\<open>"%d" % n\<close>, which produces it. Python converts between \<^verbatim>\<open>int\<close> and \<^verbatim>\<open>str\<close> only
  up to \<^verbatim>\<open>sys.get_int_max_str_digits()\<close> digits, 4300 unless the host has changed it:
  the conversion of a longer number raises \<^verbatim>\<open>ValueError\<close>.
\<close>

definition max_str_digits :: nat where
  "max_str_digits = 4300"

definition digit_char :: "nat \<Rightarrow> char" where
  "digit_char d = char_of (48 + d)"

fun show_nat :: "nat \<Rightarrow> string" where
  "show_nat n = (if n < 10 then [digit_char n] else show_nat (n div 10) @ [digit_char (n mod 10)])"

definition show_int :: "int \<Rightarrow> string" where
  "show_int n = (if n < 0 then CHR ''-'' # show_nat (nat (- n)) else show_nat (nat n))"

definition fmt_d :: "int \<Rightarrow> error + string" where
  "fmt_d n =
     (if length (show_nat (nat \<bar>n\<bar>)) > max_str_digits then Inl ValueError else Inr (show_int n))"

text \<open>
  \<^verbatim>\<open>int(s)\<close> on a string: surrounding whitespace is dropped, one sign is allowed, and
  the digits may be separated by single underscores. Anything else raises
  \<^verbatim>\<open>ValueError\<close>, which is \<open>None\<close> here, and so do more than \<open>max_str_digits\<close> digits,
  leading zeros counted and underscores not. The whitespace that \<^verbatim>\<open>int\<close> drops is
  narrower than that of \<^verbatim>\<open>str.strip()\<close>: the code points 9--13, 32, 133 and 160, and
  not 28--31.
\<close>

definition int_space :: "char \<Rightarrow> bool" where
  "int_space c = (let n = (of_char c :: nat) in (9 \<le> n \<and> n \<le> 13) \<or> n = 32 \<or> n = 133 \<or> n = 160)"

fun digits_ok :: "string \<Rightarrow> bool" where
  "digits_ok [] = False"
| "digits_ok [c] = is_digit c"
| "digits_ok (c # d # cs) =
     (is_digit c \<and> (if d = CHR ''_'' then cs \<noteq> [] \<and> digits_ok cs else digits_ok (d # cs)))"

definition digit_val :: "char \<Rightarrow> int" where
  "digit_val c = int (of_char c) - 48"

definition decimal :: "string \<Rightarrow> int" where
  "decimal ds = foldl (\<lambda>a c. 10 * a + digit_val c) 0 (filter (\<lambda>c. c \<noteq> CHR ''_'') ds)"

definition digits_within :: "string \<Rightarrow> bool" where
  "digits_within ds = (digits_ok ds \<and> length (filter (\<lambda>c. c \<noteq> CHR ''_'') ds) \<le> max_str_digits)"

definition py_int :: "string \<Rightarrow> int option" where
  "py_int s =
     (let t = rev (dropWhile int_space (rev (dropWhile int_space s))) in
      case t of
        [] \<Rightarrow> None
      | c # cs \<Rightarrow>
          if c = CHR ''-'' then (if digits_within cs then Some (- decimal cs) else None)
          else if c = CHR ''+'' then (if digits_within cs then Some (decimal cs) else None)
          else (if digits_within t then Some (decimal t) else None))"

subsection \<open>Patterns\<close>

text \<open>
  The patterns of Python's \<^verbatim>\<open>re\<close> that the program uses, as abstract syntax: literal
  characters, the dot, character classes and their negation, sequence, alternative and
  greedy repetition. \<open>Many1 r\<close> is \<^verbatim>\<open>r+\<close> and \<open>Maybe r\<close> is \<^verbatim>\<open>r?\<close>.
\<close>

datatype citem = CChar char | CRange char char | CSpace | CWord | CDigit

datatype atom = Lit char | Dot | Cls "citem list" | NCls "citem list"

datatype rexp = Eps | Atom atom | Seq rexp rexp | Alt rexp rexp | Star rexp

definition Many1 :: "rexp \<Rightarrow> rexp" where
  "Many1 r = Seq r (Star r)"

definition Maybe :: "rexp \<Rightarrow> rexp" where
  "Maybe r = Alt r Eps"

text \<open>
  Whether one character matches an item of a class. Under \<^verbatim>\<open>re.I\<close> (\<open>ic\<close>) a
  character also matches where its other case does.
\<close>

fun citem_match :: "citem \<Rightarrow> char \<Rightarrow> bool" where
  "citem_match (CChar a) c = (c = a)"
| "citem_match (CRange a b) c = ((of_char a :: nat) \<le> of_char c \<and> (of_char c :: nat) \<le> of_char b)"
| "citem_match CSpace c = is_space c"
| "citem_match CWord c = is_word c"
| "citem_match CDigit c = is_digit c"

definition class_match :: "bool \<Rightarrow> citem list \<Rightarrow> char \<Rightarrow> bool" where
  "class_match ic items c =
     list_ex (\<lambda>i. citem_match i c \<or> (ic \<and> citem_match i (swapcase c))) items"

fun atom_match :: "bool \<Rightarrow> atom \<Rightarrow> char \<Rightarrow> bool" where
  "atom_match ic (Lit a) c = (c = a \<or> (ic \<and> swapcase c = a))"
| "atom_match ic Dot c = (c \<noteq> CHR 0x0A)"
| "atom_match ic (Cls items) c = class_match ic items c"
| "atom_match ic (NCls items) c = (\<not> class_match ic items c)"

text \<open>
  The backtracking matcher. \<open>rmatch ic r k s\<close> matches \<open>r\<close> at the start of \<open>s\<close> and
  hands the rest of the string to the continuation \<open>k\<close>; when \<open>k\<close> refuses, the next
  way of matching \<open>r\<close> is tried, in the order of \<^verbatim>\<open>re\<close>: the left alternative first,
  one more repetition before stopping. The result is that of the first success.
  A repetition only goes on after an iteration that has consumed a character, so the
  length of the string bounds the iterations.
\<close>

fun star_loop ::
  "((string \<Rightarrow> 'a option) \<Rightarrow> string \<Rightarrow> 'a option) \<Rightarrow> (string \<Rightarrow> 'a option) \<Rightarrow> nat \<Rightarrow> string \<Rightarrow> 'a option"
where
  "star_loop body k 0 s = k s"
| "star_loop body k (Suc n) s =
     (case body (\<lambda>t. if length t < length s then star_loop body k n t else None) s of
        Some x \<Rightarrow> Some x
      | None \<Rightarrow> k s)"

primrec rmatch :: "bool \<Rightarrow> rexp \<Rightarrow> (string \<Rightarrow> 'a option) \<Rightarrow> string \<Rightarrow> 'a option" where
  "rmatch ic Eps k s = k s"
| "rmatch ic (Atom a) k s =
     (case s of [] \<Rightarrow> None | c # cs \<Rightarrow> if atom_match ic a c then k cs else None)"
| "rmatch ic (Seq r1 r2) k s = rmatch ic r1 (rmatch ic r2 k) s"
| "rmatch ic (Alt r1 r2) k s =
     (case rmatch ic r1 k s of Some x \<Rightarrow> Some x | None \<Rightarrow> rmatch ic r2 k s)"
| "rmatch ic (Star r) k s = star_loop (rmatch ic r) k (length s) s"

text \<open>
  \<^verbatim>\<open>$\<close> without \<^verbatim>\<open>re.M\<close>: the end of the string, or just before a newline that ends it.
\<close>

definition at_end :: "string \<Rightarrow> bool" where
  "at_end t = (t = [] \<or> t = [CHR 0x0A])"

text \<open>
  A pattern text with anchors, as \<^verbatim>\<open>_init_entry\<close> builds it by pasting
  \<^verbatim>\<open>"^\s*"\<close>, the \<^verbatim>\<open>regex\<close> text of an entry and \<^verbatim>\<open>"\s*(;.*)?$"\<close>. The alternation
  bar binds weakest in a pattern, so when the pasted text has bars outside every group
  the \<^verbatim>\<open>^\<close> belongs to its first alternative only and the \<^verbatim>\<open>$\<close> to its last. A
  compiled pattern is therefore the list of the top-level alternatives of its text:
  \<open>Anchored hat r dollar\<close> is the alternative \<open>r\<close>, with \<^verbatim>\<open>^\<close> before it when \<open>hat\<close>
  holds and \<^verbatim>\<open>$\<close> after it when \<open>dollar\<close> holds.
\<close>

datatype anchored = Anchored bool rexp bool

text \<open>
  One alternative tried at one position of the string: \<^verbatim>\<open>^\<close> holds at the start of
  the string only, \<^verbatim>\<open>$\<close> where \<open>at_end\<close> holds of the text that is left.
\<close>

fun branch_test :: "bool \<Rightarrow> bool \<Rightarrow> string \<Rightarrow> anchored \<Rightarrow> bool" where
  "branch_test ic at_start s (Anchored hat r dollar) =
     (if hat \<and> \<not> at_start then False
      else rmatch ic r (\<lambda>t. if dollar \<and> \<not> at_end t then None else Some ()) s \<noteq> None)"

text \<open>
  \<^verbatim>\<open>p.search(s)\<close> as a truth value, which is all that \<open>lookup\<close> uses of it: every
  position of the string, from the first to the one after the last character, is tried
  with every alternative.
\<close>

fun search_from :: "bool \<Rightarrow> anchored list \<Rightarrow> bool \<Rightarrow> string \<Rightarrow> bool" where
  "search_from ic p at_start [] = list_ex (branch_test ic at_start []) p"
| "search_from ic p at_start (c # cs) =
     (list_ex (branch_test ic at_start (c # cs)) p \<or> search_from ic p False cs)"

definition search_cregex :: "bool \<Rightarrow> anchored list \<Rightarrow> string \<Rightarrow> bool" where
  "search_cregex ic p s = search_from ic p True s"

text \<open>
  \<^verbatim>\<open>p.search(s)\<close> for a pattern without anchors: the first match at the leftmost
  position that has one; the result is the matched text, \<^verbatim>\<open>m.group(0)\<close>.
\<close>

fun search :: "bool \<Rightarrow> rexp \<Rightarrow> string \<Rightarrow> string option" where
  "search ic r [] = (case rmatch ic r (\<lambda>t. Some t) [] of Some t \<Rightarrow> Some [] | None \<Rightarrow> None)"
| "search ic r (c # cs) =
     (case rmatch ic r (\<lambda>t. Some t) (c # cs) of
        Some t \<Rightarrow> Some (take (length (c # cs) - length t) (c # cs))
      | None \<Rightarrow> search ic r cs)"

text \<open>\<^verbatim>\<open>OUR_COMMENT = re.compile(r"(\[[0-9.\s/]+\])")\<close>\<close>

definition OUR_COMMENT :: rexp where
  "OUR_COMMENT =
     Seq (Atom (Lit CHR ''[''))
       (Seq (Many1 (Atom (Cls [CRange CHR ''0'' CHR ''9'', CChar CHR ''.'', CSpace, CChar CHR ''/''])))
          (Atom (Lit CHR '']'')))"

definition DEF_COLUMN :: int where
  "DEF_COLUMN = 50"

definition DEF_TABSTOP :: int where
  "DEF_TABSTOP = 8"

subsection \<open>The parser and its table\<close>

text \<open>
  An entry of the table is a dictionary. The keys \<^verbatim>\<open>case\<close>, \<^verbatim>\<open>regex\<close>, \<^verbatim>\<open>cycles\<close> and
  \<^verbatim>\<open>w\<close> come from \<^verbatim>\<open>z80table.json\<close>, which is read at start-up and is a parameter
  here. \<open>regex\<close> holds the text under that key as the list of its top-level
  alternatives, each one the pattern that its part of the text denotes: a text without
  a bar outside its groups is a list of one pattern. The keys
  \<^verbatim>\<open>cregex\<close>, \<^verbatim>\<open>_t_states_or_not_met\<close>, \<^verbatim>\<open>_t_states_met\<close> and \<^verbatim>\<open>_initialized\<close> are
  absent until \<^verbatim>\<open>_init_entry\<close> stores them: an absent key is \<open>None\<close>, and
  \<open>initialized\<close> tells whether \<^verbatim>\<open>_initialized\<close> is present.
\<close>

record entry =
  case_str :: string
  regex :: "rexp list"
  cycles :: string
  w :: int
  cregex :: "anchored list option"
  t_states_or_not_met :: "int option"
  t_states_met :: "int option"
  initialized :: bool

text \<open>
  \<^verbatim>\<open>_LINE_RE = re.compile(r"^([$.\w]+:)?\s*(?P<operator>\w+)(?P<rest>\s+.*)?$")\<close>, used
  with \<^verbatim>\<open>match\<close>. The result holds the groups \<^verbatim>\<open>operator\<close> and \<^verbatim>\<open>rest\<close>, cut out of
  the line between the positions at which the matcher enters and leaves each group; a
  \<^verbatim>\<open>rest\<close> group that took no part in the match is the empty string, as
  \<^verbatim>\<open>match.group("rest") or ""\<close> makes it.
\<close>

definition label_re :: rexp where
  "label_re = Maybe (Seq (Many1 (Atom (Cls [CChar CHR ''$'', CChar CHR ''.'', CWord]))) (Atom (Lit CHR '':'')))"

definition spaces_re :: rexp where
  "spaces_re = Star (Atom (Cls [CSpace]))"

definition operator_re :: rexp where
  "operator_re = Many1 (Atom (Cls [CWord]))"

definition rest_re :: rexp where
  "rest_re = Maybe (Seq (Many1 (Atom (Cls [CSpace]))) (Star (Atom Dot)))"

definition LINE_RE_match :: "string \<Rightarrow> (string \<times> string) option" where
  "LINE_RE_match line =
     rmatch False label_re
       (\<lambda>s1. rmatch False spaces_re
          (\<lambda>s2. rmatch False operator_re
             (\<lambda>s3. rmatch False rest_re
                (\<lambda>s4. if at_end s4
                       then Some (take (length s2 - length s3) s2, take (length s3 - length s4) s3)
                       else None) s3) s2) s1) line"

definition extract_mnemonic :: "string \<Rightarrow> string option" where
  "extract_mnemonic line =
     (case LINE_RE_match line of
        Some (operator, rest) \<Rightarrow> Some (upper operator)
      | None \<Rightarrow> None)"

definition remove_label :: "string \<Rightarrow> string option" where
  "remove_label line =
     (case LINE_RE_match line of
        Some (operator, rest) \<Rightarrow> Some (operator @ rest)
      | None \<Rightarrow> None)"

text \<open>
  The pattern that \<^verbatim>\<open>_init_entry\<close> compiles,
  \<^verbatim>\<open>re.compile(r"^\s*" + entry["regex"] + r"\s*(;.*)?$", re.I)\<close>: the first alternative
  of the \<^verbatim>\<open>regex\<close> text gets \<^verbatim>\<open>^\s*\<close> before it and the last one gets
  \<^verbatim>\<open>\s*(;.*)?$\<close> after it. The empty list stands for the empty text, as \<open>[Eps]\<close> does.
  The flag \<^verbatim>\<open>re.I\<close> is applied where the pattern is searched (\<open>search_cregex True\<close>).
\<close>

definition tail_re :: rexp where
  "tail_re = Seq spaces_re (Maybe (Seq (Atom (Lit CHR '';'')) (Star (Atom Dot))))"

fun compile_rest :: "rexp list \<Rightarrow> anchored list" where
  "compile_rest [] = []"
| "compile_rest [r] = [Anchored False (Seq r tail_re) True]"
| "compile_rest (r # rs) = Anchored False r False # compile_rest rs"

fun compile_cregex :: "rexp list \<Rightarrow> anchored list" where
  "compile_cregex [] = [Anchored True (Seq spaces_re (Seq Eps tail_re)) True]"
| "compile_cregex [r] = [Anchored True (Seq spaces_re (Seq r tail_re)) True]"
| "compile_cregex (r # rs) = Anchored True (Seq spaces_re r) False # compile_rest rs"

text \<open>
  \<^verbatim>\<open>_init_entry(entry)\<close>. The entry is a dictionary that the table holds and that is
  changed in place, one key after the other, so an exception leaves behind what was
  stored before it: the compiled pattern. The model returns the entry as the call
  leaves it in both cases, beside the exception on the left, with the four keys stored
  on the right.
\<close>

definition init_entry :: "entry \<Rightarrow> (error \<times> entry) + entry" where
  "init_entry entry =
     (let entry = entry\<lparr>cregex := Some (compile_cregex (regex entry))\<rparr>;
          cycles = cycles entry
      in if CHR ''/'' \<in> set cycles then
           (case str_split CHR ''/'' cycles of
              c0 # c1 # _ \<Rightarrow>
                (case py_int c1 of
                   None \<Rightarrow> Inl (ValueError, entry)
                 | Some t_not_met \<Rightarrow>
                     (case py_int c0 of
                        None \<Rightarrow> Inl (ValueError, entry)
                      | Some t_met \<Rightarrow>
                          Inr (entry\<lparr>t_states_or_not_met := Some t_not_met,
                                     t_states_met := Some t_met,
                                     initialized := True\<rparr>)))
            | _ \<Rightarrow> Inl (IndexError, entry))
         else
           (case py_int cycles of
              None \<Rightarrow> Inl (ValueError, entry)
            | Some t_not_met \<Rightarrow>
                Inr (entry\<lparr>t_states_or_not_met := Some t_not_met,
                           t_states_met := Some 0,
                           initialized := True\<rparr>)))"

text \<open>
  \<^verbatim>\<open>Parser._load_table\<close>, from the list that \<^verbatim>\<open>json.load\<close> returns: a stable sort
  on \<^verbatim>\<open>w\<close>, then one pass that appends every entry to the list of its mnemonic.
\<close>

type_synonym table = "string \<Rightarrow> entry list option"

fun load_table_loop :: "entry list \<Rightarrow> table \<Rightarrow> error + table" where
  "load_table_loop [] res = Inr res"
| "load_table_loop (i # rest) res =
     (case extract_mnemonic (case_str i) of
        None \<Rightarrow> Inl AssertionError
      | Some mnemo \<Rightarrow>
          load_table_loop rest
            (res(mnemo \<mapsto> (case res mnemo of None \<Rightarrow> [] | Some l \<Rightarrow> l) @ [i])))"

definition load_table :: "entry list \<Rightarrow> error + table" where
  "load_table json = load_table_loop (sort_key w json) Map.empty"

record parser =
  table :: table

definition Parser :: "entry list \<Rightarrow> error + parser" where
  "Parser json = (case load_table json of Inl err \<Rightarrow> Inl err | Inr t \<Rightarrow> Inr \<lparr>table = t\<rparr>)"

text \<open>
  \<^verbatim>\<open>Parser.lookup\<close>. The loop over the entries of the mnemonic initialises every entry
  it reaches, in place; the model returns the list with the entries as the loop has
  left them and \<open>lookup\<close> returns the parser with that list stored back, also when the
  loop ends with an exception: the parser is then on the left, beside the exception.
\<close>

fun lookup_loop ::
  "entry list \<Rightarrow> string \<Rightarrow> (error \<times> entry list) + (entry option \<times> entry list)"
where
  "lookup_loop [] line = Inr (None, [])"
| "lookup_loop (entry # rest) line =
     (case (if \<not> initialized entry then init_entry entry else Inr entry) of
        Inl (err, entry) \<Rightarrow> Inl (err, entry # rest)
      | Inr entry \<Rightarrow>
          (case cregex entry of
             None \<Rightarrow> Inl (KeyError, entry # rest)
           | Some cr \<Rightarrow>
               if search_cregex True cr line then Inr (Some entry, entry # rest)
               else (case lookup_loop rest line of
                       Inl (err, rest') \<Rightarrow> Inl (err, entry # rest')
                     | Inr (found, rest') \<Rightarrow> Inr (found, entry # rest'))))"

definition lookup :: "parser \<Rightarrow> string \<Rightarrow> (error \<times> parser) + (entry option \<times> parser)" where
  "lookup self line =
     (case (extract_mnemonic line, remove_label line) of
        (Some mnemo, Some line) \<Rightarrow>
          (case table self mnemo of
             None \<Rightarrow> Inr (None, self)
           | Some entries \<Rightarrow>
               (case lookup_loop entries line of
                  Inl (err, entries') \<Rightarrow>
                    Inl (err, self\<lparr>table := (table self)(mnemo \<mapsto> entries')\<rparr>)
                | Inr (found, entries') \<Rightarrow>
                    Inr (found, self\<lparr>table := (table self)(mnemo \<mapsto> entries')\<rparr>)))
      | _ \<Rightarrow> Inr (None, self))"

subsection \<open>The accumulator\<close>

text \<open>
  \<^verbatim>\<open>update_counters(entry, total)\<close>: a zero \<^verbatim>\<open>_t_states_met\<close> is false. The
  parameter \<^verbatim>\<open>total\<close> is \<open>tot\<close> throughout.
\<close>

definition update_counters :: "entry \<Rightarrow> int \<Rightarrow> error + (int \<times> int)" where
  "update_counters entry tot =
     (case t_states_met entry of
        None \<Rightarrow> Inl KeyError
      | Some met \<Rightarrow>
          (let total_cond = (if met \<noteq> 0 then tot + met else 0) in
           case t_states_or_not_met entry of
             None \<Rightarrow> Inl KeyError
           | Some not_met \<Rightarrow> Inr (tot + not_met, total_cond)))"

subsection \<open>Alignment\<close>

text \<open>
  \<^verbatim>\<open>line_length(line, tab_width)\<close>: the loop over the characters of the line, with
  the running \<^verbatim>\<open>length\<close> as accumulator. \<^verbatim>\<open>//\<close> is floor division, as \<open>div\<close> on
  \<^typ>\<open>int\<close> is; a zero \<^verbatim>\<open>tab_width\<close> raises when a tab is met.
\<close>

fun line_length_loop :: "string \<Rightarrow> int \<Rightarrow> int \<Rightarrow> error + int" where
  "line_length_loop [] tab_width len = Inr len"
| "line_length_loop (i # rest) tab_width len =
     (if i = CHR 0x09
      then (if tab_width = 0 then Inl ZeroDivisionError
            else line_length_loop rest tab_width (((len + tab_width) div tab_width) * tab_width))
      else line_length_loop rest tab_width (len + 1))"

definition line_length :: "string \<Rightarrow> int \<Rightarrow> error + int" where
  "line_length line tab_width = line_length_loop line tab_width 0"

text \<open>
  \<^verbatim>\<open>comment_alignment(line, column, use_tabs, tab_width)\<close>. A string multiplied by a
  negative count is empty in Python, as \<open>replicate (nat n)\<close> is.
\<close>

definition comment_alignment :: "string \<Rightarrow> int \<Rightarrow> bool \<Rightarrow> int \<Rightarrow> error + string" where
  "comment_alignment line column use_tabs tab_width =
     (let expected_length = column - 1 in
      case line_length line tab_width of
        Inl err \<Rightarrow> Inl err
      | Inr len \<Rightarrow>
          if len \<ge> expected_length then Inr '' ''
          else if use_tabs then
            (if tab_width = 0 then Inl ZeroDivisionError
             else
               (let tab_stop = (expected_length div tab_width) * tab_width + 1 in
                if tab_stop > len then
                  (let extra_tabs = (tab_stop - len) div tab_width;
                       extra_tabs = (if len mod tab_width > 1 then extra_tabs + 1 else extra_tabs);
                       extra_spaces = expected_length - tab_stop
                   in Inr (replicate (nat extra_tabs) (CHR 0x09) @ replicate (nat extra_spaces) CHR '' ''))
                else
                  Inr (replicate (nat 0) (CHR 0x09) @ replicate (nat (expected_length - len)) CHR '' '')))
          else Inr (replicate (nat 0) (CHR 0x09) @ replicate (nat (expected_length - len)) CHR '' ''))"

text \<open>
  The alignment as section 4.5 of the specification words it, for comparison with the
  code: the tab-aware length, in which a tab advances to the next multiple of the tab
  width and any other character advances by one, and the padding computed from it.
\<close>

definition next_multiple :: "int \<Rightarrow> int \<Rightarrow> int" where
  "next_multiple pos tab_width = (pos div tab_width + 1) * tab_width"

fun tab_aware_length_from :: "int \<Rightarrow> string \<Rightarrow> int \<Rightarrow> int" where
  "tab_aware_length_from pos [] tab_width = pos"
| "tab_aware_length_from pos (c # cs) tab_width =
     tab_aware_length_from (if c = CHR 0x09 then next_multiple pos tab_width else pos + 1) cs tab_width"

definition tab_aware_length :: "string \<Rightarrow> int \<Rightarrow> int" where
  "tab_aware_length code_text tab_width = tab_aware_length_from 0 code_text tab_width"


subsection \<open>Formatting a line\<close>

text \<open>
  The bracketed text of an annotation, \<^verbatim>\<open>"[%s" % cycles\<close> and what
  \<^verbatim>\<open>format_line\<close> appends to it: the totals, printed with \<^verbatim>\<open>%d\<close>, when subtotals are
  asked for.
\<close>

definition bracket :: "entry \<Rightarrow> int \<Rightarrow> int \<Rightarrow> bool \<Rightarrow> error + string" where
  "bracket entry tot total_cond subt =
     (let comment = ''['' @ cycles entry in
      if subt then
        (if total_cond \<noteq> 0 then
           (case fmt_d total_cond of
              Inl err \<Rightarrow> Inl err
            | Inr a \<Rightarrow>
                (case fmt_d tot of
                   Inl err \<Rightarrow> Inl err
                 | Inr b \<Rightarrow> Inr (comment @ '' .. '' @ a @ ''/'' @ b @ '']'')))
         else
           (case fmt_d tot of
              Inl err \<Rightarrow> Inl err
            | Inr b \<Rightarrow> Inr (comment @ '' .. '' @ b @ '']'')))
      else Inr (comment @ '']''))"

text \<open>
  \<^verbatim>\<open>format_line(line, entry, total, total_cond, subt, update, column, debug, use_tabs,
  tab_width)\<close>. \<open>rsplit1\<close> returns one or two strings. The comment is built before the
  alignment is computed, so an exception of \<^verbatim>\<open>%d\<close> comes before one of
  \<^verbatim>\<open>comment_alignment\<close>.
\<close>

definition format_line ::
  "string \<Rightarrow> entry \<Rightarrow> int \<Rightarrow> int \<Rightarrow> bool \<Rightarrow> bool \<Rightarrow> int \<Rightarrow> bool \<Rightarrow> bool \<Rightarrow> int \<Rightarrow> error + string"
where
  "format_line line entry tot total_cond subt update column debug use_tabs tab_width =
     (case bracket entry tot total_cond subt of
        Inl err \<Rightarrow> Inl err
      | Inr b \<Rightarrow>
          (let comment = ''; '' @ b;
               comment = (if debug then comment @ '' case{'' @ case_str entry @ ''}'' else comment)
           in case rsplit1 CHR '';'' (rstrip line) of
                [line0] \<Rightarrow>
                  (case comment_alignment line0 column use_tabs tab_width of
                     Inl err \<Rightarrow> Inl err
                   | Inr spacing \<Rightarrow> Inr (line0 @ spacing @ comment @ [CHR 0x0A]))
              | line0 # line1 # _ \<Rightarrow>
                  (let line1 =
                         (if update then
                            (case search False OUR_COMMENT line1 of
                               Some m \<Rightarrow> replace line1 m []
                             | None \<Rightarrow> line1)
                          else line1)
                   in Inr (line0 @ comment @ '' '' @ lstrip line1 @ [CHR 0x0A]))
              | [] \<Rightarrow> Inl IndexError))"

subsection \<open>One line\<close>


subsection \<open>The data model of the specification\<close>

text \<open>
  Section 3 of the specification gives a record a cycle cost that is either one number
  or a pair of a met and a not-met cost, written \<^verbatim>\<open>"M/N"\<close> or as a plain number in
  the table (section 6). \<open>spec_cycle_cost\<close> reads the \<^verbatim>\<open>cycles\<close> text that way.
\<close>

datatype cycle_cost = Fixed int | Conditional int int

definition spec_cycle_cost :: "string \<Rightarrow> cycle_cost option" where
  "spec_cycle_cost text =
     (case str_split CHR ''/'' text of
        [c] \<Rightarrow> (case py_int c of Some n \<Rightarrow> Some (Fixed n) | None \<Rightarrow> None)
      | [m, n] \<Rightarrow>
          (case (py_int m, py_int n) of
             (Some met, Some not_met) \<Rightarrow> Some (Conditional met not_met)
           | _ \<Rightarrow> None)
      | _ \<Rightarrow> None)"

text \<open>
  The running totals of a sequence of matched records, as the driver threads them:
  every record updates the total that the one before it has returned.
\<close>

fun running_totals :: "entry list \<Rightarrow> int \<Rightarrow> error + int list" where
  "running_totals [] tot = Inr []"
| "running_totals (entry # rest) tot =
     (case update_counters entry tot of
        Inl err \<Rightarrow> Inl err
      | Inr (tot', total_cond) \<Rightarrow>
          (case running_totals rest tot' of
             Inl err \<Rightarrow> Inl err
           | Inr tots \<Rightarrow> Inr (tot' # tots)))"


subsection \<open>What a pattern matches\<close>



definition pattern_matches :: "entry \<Rightarrow> string \<Rightarrow> bool" where
  "pattern_matches entry line = search_cregex True (compile_cregex (regex entry)) line"

text \<open>
  The keys of an entry that come from the table file, and the only change that a
  lookup makes to an entry: none, or the initialisation of an entry that was not
  initialised.
\<close>

definition loaded_fields :: "entry \<Rightarrow> string \<times> rexp list \<times> string \<times> int" where
  "loaded_fields entry = (case_str entry, regex entry, cycles entry, w entry)"

definition entry_step :: "entry \<Rightarrow> entry \<Rightarrow> bool" where
  "entry_step entry entry' =
     (entry' = entry \<or> (\<not> initialized entry \<and> init_entry entry = Inr entry'))"

text \<open>
  An entry as a lookup that tests it leaves it: an initialised entry as it is, any
  other one as \<^verbatim>\<open>_init_entry\<close> leaves it, whether it returns or raises. \<open>passes\<close> holds
  when the loop of \<open>lookup\<close> tests the entry and goes on to the next one: the entry
  gets initialised, or was, and its compiled pattern is not found in the line.
  \<open>parser_after\<close> is the parser that a call leaves behind, returned or raised.
\<close>

definition touch :: "entry \<Rightarrow> entry" where
  "touch entry =
     (if initialized entry then entry
      else (case init_entry entry of Inl (err, entry') \<Rightarrow> entry' | Inr entry' \<Rightarrow> entry'))"

definition passes :: "entry \<Rightarrow> string \<Rightarrow> bool" where
  "passes entry line =
     (initialized (touch entry) \<and>
      (case cregex (touch entry) of None \<Rightarrow> False | Some cr \<Rightarrow> \<not> search_cregex True cr line))"

definition parser_after :: "(error \<times> parser) + ('a \<times> parser) \<Rightarrow> parser" where
  "parser_after res = (case res of Inl (err, self) \<Rightarrow> self | Inr (x, self) \<Rightarrow> self)"

text \<open>
  The parser after the lookups of a list of lines, one after the other, as the driver
  makes them: an exception ends the run.
\<close>

fun lookups :: "parser \<Rightarrow> string list \<Rightarrow> error + parser" where
  "lookups self [] = Inr self"
| "lookups self (line # rest) =
     (case lookup self line of
        Inl (err, self') \<Rightarrow> Inl err
      | Inr (found, self') \<Rightarrow> lookups self' rest)"

text \<open>
  The records of a mnemonic in the order in which \<^verbatim>\<open>_load_table\<close> stores them: the
  table file sorted by weight, restricted to the records whose \<^verbatim>\<open>case\<close> yields the
  mnemonic.
\<close>

definition records_of :: "entry list \<Rightarrow> string \<Rightarrow> entry list" where
  "records_of json mnemo =
     filter (\<lambda>e. extract_mnemonic (case_str e) = Some mnemo) (sort_key w json)"

text \<open>
  A parser holds the table of a table file when every mnemonic has the records of
  \<open>records_of\<close>, each one as loaded or as \<^verbatim>\<open>_init_entry\<close> has left it.
\<close>

definition holds_table :: "entry list \<Rightarrow> parser \<Rightarrow> bool" where
  "holds_table json self =
     (\<forall>mnemo. rel_option (list_all2 entry_step)
        (if records_of json mnemo = [] then None else Some (records_of json mnemo))
        (table self mnemo))"










text \<open>
  The recognition shape of a previous annotation (section 6): an opening bracket, one
  or more digits, dots, slashes or whitespace characters, a closing bracket. \<open>occurs_in\<close>
  is the substring relation. \<open>annotation\<close> is the bracketed text that \<open>format_line\<close>
  builds for a record and the two totals.
\<close>

definition annot_char :: "char \<Rightarrow> bool" where
  "annot_char c = (is_digit c \<or> c = CHR ''.'' \<or> is_space c \<or> c = CHR ''/'')"

definition is_annotation :: "string \<Rightarrow> bool" where
  "is_annotation m =
     (\<exists>body. body \<noteq> [] \<and> (\<forall>c \<in> set body. annot_char c) \<and> m = ''['' @ body @ '']'')"

definition occurs_in :: "string \<Rightarrow> string \<Rightarrow> bool" where
  "occurs_in old s = (\<exists>u v. s = u @ old @ v)"

definition annotation :: "entry \<Rightarrow> int \<Rightarrow> int \<Rightarrow> bool \<Rightarrow> string" where
  "annotation entry tot total_cond subt =
     ''['' @ cycles entry @
     (if subt then
        (if total_cond \<noteq> 0
         then '' .. '' @ show_int total_cond @ ''/'' @ show_int tot @ '']''
         else '' .. '' @ show_int tot @ '']'')
      else '']'')"

subsection \<open>Sample tables\<close>

text \<open>
  Entries as \<^verbatim>\<open>json.load\<close> delivers them, before any initialisation, and the pattern
  of a literal text.
\<close>

definition json_entry :: "string \<Rightarrow> rexp list \<Rightarrow> string \<Rightarrow> int \<Rightarrow> entry" where
  "json_entry c r cy weight =
     \<lparr>case_str = c, regex = r, cycles = cy, w = weight, cregex = None,
      t_states_or_not_met = None, t_states_met = None, initialized = False\<rparr>"

definition lits :: "string \<Rightarrow> rexp" where
  "lits s = foldr (\<lambda>c r. Seq (Atom (Lit c)) r) s Eps"

definition nop_entry :: entry where
  "nop_entry = json_entry ''nop'' [lits ''nop''] ''4'' 1"

definition djnz_entry :: entry where
  "djnz_entry =
     json_entry ''djnz o''
       [Seq (lits ''djnz'') (Seq (Many1 (Atom (Cls [CSpace]))) (Many1 (Atom (Cls [CWord]))))]
       ''13/8'' 1"

definition zero_met_entry :: entry where
  "zero_met_entry =
     json_entry ''jr o''
       [Seq (lits ''jr'') (Seq (Many1 (Atom (Cls [CSpace]))) (Many1 (Atom (Cls [CWord]))))]
       ''0/12'' 1"

definition nop_ready :: entry where
  "nop_ready =
     nop_entry\<lparr>cregex := Some (compile_cregex [lits ''nop'']),
               t_states_or_not_met := Some 4, t_states_met := Some 0, initialized := True\<rparr>"


definition sample_parser :: parser where
  "sample_parser = \<lparr>table = [''DJNZ'' \<mapsto> [djnz_entry], ''NOP'' \<mapsto> [nop_entry]]\<rparr>"

definition ld_any_entry :: entry where
  "ld_any_entry =
     json_entry ''ld r,r''
       [Seq (lits ''ld'') (Seq (Many1 (Atom (Cls [CSpace]))) (Many1 (Atom Dot)))]
       ''4'' 2"

definition ld_hl_entry :: entry where
  "ld_hl_entry = json_entry ''ld a,(hl)'' [lits ''ld a,(hl)''] ''7'' 1"

definition ld_hl_ready :: entry where
  "ld_hl_ready =
     ld_hl_entry\<lparr>cregex := Some (compile_cregex [lits ''ld a,(hl)'']),
                 t_states_or_not_met := Some 7, t_states_met := Some 0, initialized := True\<rparr>"

definition ld_json :: "entry list" where
  "ld_json = [ld_any_entry, ld_hl_entry]"

definition ld_parser :: parser where
  "ld_parser = \<lparr>table = [''LD'' \<mapsto> [ld_hl_entry, ld_any_entry]]\<rparr>"





text \<open>A table with one record whose \<^verbatim>\<open>cycles\<close> text is not a number.\<close>

definition bad_entry :: entry where
  "bad_entry = json_entry ''nop'' [lits ''nop''] ''four'' 1"

definition bad_parser :: parser where
  "bad_parser = \<lparr>table = [''NOP'' \<mapsto> [bad_entry]]\<rparr>"


section \<open>Alignment: the code against section 4.5\<close>

lemma next_multiple_dvd: "tab_width dvd next_multiple pos tab_width"
  by (simp add: next_multiple_def)

lemma next_multiple_gt:
  assumes "0 < tab_width"
  shows "pos < next_multiple pos tab_width"
proof -
  have "pos = (pos div tab_width) * tab_width + pos mod tab_width" by simp
  moreover have "pos mod tab_width < tab_width" using assms by simp
  ultimately have "pos < (pos div tab_width) * tab_width + tab_width" by linarith
  then show ?thesis by (simp add: next_multiple_def algebra_simps)
qed

lemma next_multiple_least:
  assumes "0 < tab_width" and "tab_width dvd m" and "pos < m"
  shows "next_multiple pos tab_width \<le> m"
proof -
  from assms(2) obtain k where m: "m = tab_width * k" by (auto simp: dvd_def)
  have "pos div tab_width < k"
  proof (rule ccontr)
    assume "\<not> pos div tab_width < k"
    then have "k \<le> pos div tab_width" by simp
    then have "tab_width * k \<le> tab_width * (pos div tab_width)"
      using assms(1) by (simp add: mult_left_mono)
    also have "\<dots> \<le> pos"
      using assms(1) by (metis mult.commute div_mult_mod_eq add_increasing2 pos_mod_sign order_refl)
    finally show False using assms(3) m by simp
  qed
  then have "pos div tab_width + 1 \<le> k" by simp
  then have "(pos div tab_width + 1) * tab_width \<le> k * tab_width"
    using assms(1) by (simp add: mult_right_mono)
  then show ?thesis by (simp add: next_multiple_def m mult.commute)
qed

lemma line_length_loop_spec:
  "tab_width \<noteq> 0 \<Longrightarrow>
   line_length_loop line tab_width len = Inr (tab_aware_length_from len line tab_width)"
proof (induction line arbitrary: len)
  case Nil
  show ?case by simp
next
  case (Cons c cs)
  have "(len + tab_width) div tab_width = len div tab_width + 1"
    using Cons.prems by (rule div_add_self2)
  with Cons show ?case by (simp add: next_multiple_def)
qed

lemma line_length_spec:
  "tab_width \<noteq> 0 \<Longrightarrow> line_length line tab_width = Inr (tab_aware_length line tab_width)"
  by (simp add: line_length_def tab_aware_length_def line_length_loop_spec)






section \<open>Alignment: an empty padding\<close>

lemma rsplit1_none: "sep \<notin> set s \<Longrightarrow> rsplit1 sep s = [s]"
  by (simp add: rsplit1_def)

text \<open>
  C10. With tabs enabled the alignment can be empty although the tab-aware length is
  below column - 1: a code text of tab-aware length 48, with column 50 and tab width 8,
  gets no tab and no space, and when that text has no comment and no trailing
  whitespace the annotation follows it directly.
\<close>

theorem alignment_can_be_empty:
  assumes "tab_aware_length line 8 = 48"
  shows "tab_aware_length line 8 < 50 - 1 \<and> comment_alignment line 50 True 8 = Inr [] \<and>
         (CHR '';'' \<notin> set line \<and> rstrip line = line \<longrightarrow>
            format_line line entry tot total_cond False update 50 False True 8 =
              Inr (line @ ''; ['' @ cycles entry @ '']'' @ [CHR 0x0A]))"
proof -
  have a: "comment_alignment line 50 True 8 = Inr []"
    using assms by (simp add: comment_alignment_def line_length_spec)
  show ?thesis
    using assms a by (simp add: format_line_def bracket_def rsplit1_none)
qed

theorem alignment_can_be_empty_witness:
  "tab_aware_length (replicate 48 CHR ''x'') 8 = 48 \<and>
   comment_alignment (replicate 48 CHR ''x'') 50 True 8 = Inr [] \<and>
   format_line (replicate 48 CHR ''x'') nop_entry 4 0 False True 50 False True 8 =
     Inr (replicate 48 CHR ''x'' @ ''; [4]'' @ [CHR 0x0A])"
proof -
  have l: "tab_aware_length (replicate 48 CHR ''x'') 8 = 48"
    by code_simp
  have s: "CHR '';'' \<notin> set (replicate 48 CHR ''x'')"
    by simp
  have r: "rstrip (replicate 48 CHR ''x'') = replicate 48 CHR ''x''"
    by code_simp
  have c: "cycles nop_entry = ''4''"
    by (simp add: nop_entry_def json_entry_def)
  show ?thesis
    using alignment_can_be_empty [OF l, of nop_entry 4 0 True] l s r c by simp
qed

section \<open>The accumulator\<close>

lemma str_split_nonempty: "str_split sep s \<noteq> []"
  by (induction s) (auto split: list.splits)

lemma str_split_single: "(\<exists>c. str_split sep s = [c]) \<longleftrightarrow> sep \<notin> set s"
  by (induction s) (auto split: list.splits simp: str_split_nonempty)

lemma str_split_no_sep: "sep \<notin> set s \<Longrightarrow> str_split sep s = [s]"
  by (induction s) (auto split: list.splits)

lemma init_entry_costs:
  assumes "init_entry e0 = Inr e"
  shows "(spec_cycle_cost (cycles e0) = Some (Conditional M N) \<longrightarrow>
            t_states_met e = Some M \<and> t_states_or_not_met e = Some N) \<and>
         (spec_cycle_cost (cycles e0) = Some (Fixed C) \<longrightarrow>
            t_states_met e = Some 0 \<and> t_states_or_not_met e = Some C)"
proof (cases "CHR ''/'' \<in> set (cycles e0)")
  case True
  then have "\<not> (\<exists>c. str_split CHR ''/'' (cycles e0) = [c])"
    by (simp add: str_split_single)
  with True assms show ?thesis
    by (auto simp: init_entry_def spec_cycle_cost_def Let_def
             split: list.splits option.splits if_splits)
next
  case False
  then have "str_split CHR ''/'' (cycles e0) = [cycles e0]"
    by (rule str_split_no_sep)
  with False assms show ?thesis
    by (auto simp: init_entry_def spec_cycle_cost_def Let_def split: option.splits)
qed

text \<open>
  C1. For every record that \<open>init_entry\<close> has prepared and every running total: when
  the record's cost is conditional with met cost M and not-met cost N, the update
  returns the new total tot + N and the conditional total tot + M, or 0 when M is zero;
  when the cost is the single number C, it returns tot + C and the conditional total 0.
\<close>

theorem update_counters_spec:
  assumes "init_entry e0 = Inr e"
  shows "(spec_cycle_cost (cycles e0) = Some (Conditional M N) \<longrightarrow>
            update_counters e tot = Inr (tot + N, if M \<noteq> 0 then tot + M else 0)) \<and>
         (spec_cycle_cost (cycles e0) = Some (Fixed C) \<longrightarrow>
            update_counters e tot = Inr (tot + C, 0))"
  using init_entry_costs [OF assms, of M N C]
  by (auto simp: update_counters_def)

theorem update_counters_spec_witness:
  "(\<exists>e. init_entry djnz_entry = Inr e \<and>
        spec_cycle_cost (cycles djnz_entry) = Some (Conditional 13 8) \<and>
        update_counters e 100 = Inr (108, 113)) \<and>
   (\<exists>e. init_entry zero_met_entry = Inr e \<and>
        spec_cycle_cost (cycles zero_met_entry) = Some (Conditional 0 12) \<and>
        update_counters e 100 = Inr (112, 0)) \<and>
   (\<exists>e. init_entry nop_entry = Inr e \<and>
        spec_cycle_cost (cycles nop_entry) = Some (Fixed 4) \<and>
        update_counters e 7 = Inr (11, 0))"
proof -
  obtain e1 where e1: "init_entry djnz_entry = Inr e1"
    by (simp add: init_entry_def djnz_entry_def json_entry_def Let_def py_int_def int_space_def
          digits_within_def max_str_digits_def is_digit_def decimal_def digit_val_def)
  obtain e2 where e2: "init_entry nop_entry = Inr e2"
    by (simp add: init_entry_def nop_entry_def json_entry_def Let_def py_int_def int_space_def
          digits_within_def max_str_digits_def is_digit_def decimal_def digit_val_def)
  obtain e3 where e3: "init_entry zero_met_entry = Inr e3"
    by (simp add: init_entry_def zero_met_entry_def json_entry_def Let_def py_int_def int_space_def
          digits_within_def max_str_digits_def is_digit_def decimal_def digit_val_def)
  have c1: "spec_cycle_cost (cycles djnz_entry) = Some (Conditional 13 8)"
    by code_simp
  have c2: "spec_cycle_cost (cycles nop_entry) = Some (Fixed 4)"
    by code_simp
  have c3: "spec_cycle_cost (cycles zero_met_entry) = Some (Conditional 0 12)"
    by code_simp
  show ?thesis
    using update_counters_spec [OF e1, where M = 13 and N = 8 and tot = 100]
      update_counters_spec [OF e3, where M = 0 and N = 12 and tot = 100]
      update_counters_spec [OF e2, where C = 4 and tot = 7]
      e1 e2 e3 c1 c2 c3 by simp
qed

text \<open>
  C8. For every sequence of matched records whose not-met (or only) cost is not
  negative, the running totals that successive updates produce never decrease, and for
  every such record and every total the new total is at least the total.
\<close>

theorem running_total_monotone:
  assumes "\<forall>e \<in> set es. \<exists>m n. t_states_met e = Some m \<and> t_states_or_not_met e = Some n \<and> 0 \<le> n"
  shows "(\<exists>tots. running_totals es tot = Inr tots \<and> sorted (tot # tots)) \<and>
         (\<forall>e \<in> set es. \<forall>t. \<exists>t' c. update_counters e t = Inr (t', c) \<and> t \<le> t')"
proof
  show "\<exists>tots. running_totals es tot = Inr tots \<and> sorted (tot # tots)"
    using assms
  proof (induction es arbitrary: tot)
    case Nil
    show ?case by simp
  next
    case (Cons e es)
    then obtain m n where e: "t_states_met e = Some m" "t_states_or_not_met e = Some n" "0 \<le> n"
      by auto
    from Cons obtain tots where
      t: "running_totals es (tot + n) = Inr tots" "sorted ((tot + n) # tots)"
      by (metis list.set_intros(2))
    with e show ?case by (auto simp: update_counters_def)
  qed
  show "\<forall>e \<in> set es. \<forall>t. \<exists>t' c. update_counters e t = Inr (t', c) \<and> t \<le> t'"
    using assms by (fastforce simp: update_counters_def)
qed

theorem running_total_monotone_witness:
  "running_totals
     [nop_entry\<lparr>t_states_met := Some 0, t_states_or_not_met := Some 4\<rparr>,
      djnz_entry\<lparr>t_states_met := Some 13, t_states_or_not_met := Some 8\<rparr>] 100 = Inr [104, 112] \<and>
   sorted [100, 104, 112 :: int]"
  using running_total_monotone
    [of "[nop_entry\<lparr>t_states_met := Some 0, t_states_or_not_met := Some 4\<rparr>,
          djnz_entry\<lparr>t_states_met := Some 13, t_states_or_not_met := Some 8\<rparr>]" 100]
  by (simp add: update_counters_def)

section \<open>The matcher accepts only what the pattern denotes\<close>








section \<open>What a lookup changes\<close>

lemma init_entry_result:
  assumes "init_entry e = Inr e'"
  shows "loaded_fields e' = loaded_fields e" "initialized e'"
    "cregex e' = Some (compile_cregex (regex e))"
  using assms
  by (auto simp: init_entry_def loaded_fields_def Let_def split: if_splits list.splits option.splits)

lemma entry_step_refl: "entry_step e e"
  by (simp add: entry_step_def)

lemma entry_step_trans: "entry_step a b \<Longrightarrow> entry_step b c \<Longrightarrow> entry_step a c"
  by (auto simp: entry_step_def dest: init_entry_result(2))

lemma entry_step_loaded: "entry_step e e' \<Longrightarrow> loaded_fields e' = loaded_fields e"
  by (auto simp: entry_step_def dest: init_entry_result(1))

lemma lookup_loop_step:
  "lookup_loop es line = Inr (found, es') \<Longrightarrow> list_all2 entry_step es es'"
proof (induction es arbitrary: found es')
  case Nil
  then show ?case by simp
next
  case (Cons e es)
  show ?case
  proof (cases "initialized e")
    case True
    with Cons.prems Cons.IH show ?thesis
      by (auto simp: entry_step_def list_all2_same split: option.splits if_splits sum.splits)
  next
    case False
    with Cons.prems Cons.IH show ?thesis
      by (auto simp: entry_step_def list_all2_same split: option.splits if_splits sum.splits)
  qed
qed

lemma list_all2_entry_step_refl: "list_all2 entry_step es es"
  by (simp add: list_all2_same entry_step_refl)

lemma lookup_table_step:
  assumes "lookup p line = Inr (found, p')"
  shows "rel_option (list_all2 entry_step) (table p m) (table p' m)"
proof -
  have refl: "rel_option (list_all2 entry_step) (table p m) (table p m)"
    by (cases "table p m") (simp_all add: list_all2_entry_step_refl)
  show ?thesis
    using assms refl
    by (auto simp: lookup_def split: option.splits sum.splits prod.splits dest: lookup_loop_step)
qed

text \<open>
  C9 as stated fails: the lookup of \<^verbatim>\<open>NOP\<close> in the sample parser stores the compiled
  pattern, the two costs and the initialisation mark in the record of the table.
\<close>

theorem lookup_mutates_entry:
  "table sample_parser ''NOP'' = Some [nop_entry] \<and>
   lookup sample_parser ''NOP'' =
     Inr (Some nop_ready, sample_parser\<lparr>table := (table sample_parser)(''NOP'' \<mapsto> [nop_ready])\<rparr>) \<and>
   table (sample_parser\<lparr>table := (table sample_parser)(''NOP'' \<mapsto> [nop_ready])\<rparr>) ''NOP'' = Some [nop_ready] \<and>
   \<not> initialized nop_entry \<and> initialized nop_ready \<and> cregex nop_entry = None \<and>
   cregex nop_ready = Some (compile_cregex [lits ''nop''])"
proof -
  have em: "extract_mnemonic ''NOP'' = Some ''NOP''" by code_simp
  have rl: "remove_label ''NOP'' = Some ''NOP''" by code_simp
  have ie: "init_entry nop_entry = Inr nop_ready"
    by (simp add: init_entry_def nop_entry_def nop_ready_def json_entry_def Let_def py_int_def
          int_space_def digits_within_def max_str_digits_def is_digit_def decimal_def digit_val_def)
  have pm: "search_cregex True (compile_cregex [lits ''nop'']) ''NOP''" by code_simp
  have lk: "lookup sample_parser ''NOP'' =
     Inr (Some nop_ready, sample_parser\<lparr>table := (table sample_parser)(''NOP'' \<mapsto> [nop_ready])\<rparr>)"
    by (simp add: lookup_def em rl sample_parser_def ie pm del: compile_cregex.simps)
       (simp add: nop_entry_def nop_ready_def json_entry_def pm del: compile_cregex.simps)
  show ?thesis
    using lk by (simp add: sample_parser_def nop_entry_def nop_ready_def json_entry_def)
qed

lemma str_split_two:
  "sep \<in> set s \<Longrightarrow> \<exists>c0 c1 cs. str_split sep s = c0 # c1 # cs"
proof -
  assume "sep \<in> set s"
  then have "\<not> (\<exists>c. str_split sep s = [c])" by (simp add: str_split_single)
  moreover have "str_split sep s \<noteq> []" by (rule str_split_nonempty)
  ultimately show ?thesis
    by (cases "str_split sep s"; cases "tl (str_split sep s)") auto
qed

lemma init_entry_Inl:
  assumes "init_entry e = Inl (err, e')"
  shows "err = ValueError" "e' = e\<lparr>cregex := Some (compile_cregex (regex e))\<rparr>"
proof -
  show "err = ValueError"
  proof (cases "CHR ''/'' \<in> set (cycles e)")
    case True
    from str_split_two [OF this] obtain c0 c1 cs where
      "str_split CHR ''/'' (cycles e) = c0 # c1 # cs" by blast
    with True assms show ?thesis
      by (auto simp: init_entry_def Let_def split: option.splits)
  next
    case False
    with assms show ?thesis
      by (auto simp: init_entry_def Let_def split: option.splits)
  qed
  show "e' = e\<lparr>cregex := Some (compile_cregex (regex e))\<rparr>"
    using assms
    by (auto simp: init_entry_def Let_def split: if_splits list.splits option.splits)
qed

lemma init_entry_Inr:
  assumes "init_entry e = Inr e'"
  shows "\<exists>n m. e' = e\<lparr>cregex := Some (compile_cregex (regex e)), t_states_or_not_met := Some n,
                       t_states_met := Some m, initialized := True\<rparr>"
  using assms
  by (auto simp: init_entry_def Let_def split: if_splits list.splits option.splits)

lemma touch_initialized: "initialized e \<Longrightarrow> touch e = e"
  by (simp add: touch_def)

lemma touch_keys:
  "touch e = e\<lparr>cregex := cregex (touch e), t_states_or_not_met := t_states_or_not_met (touch e),
              t_states_met := t_states_met (touch e), initialized := initialized (touch e)\<rparr>"
proof (cases "initialized e")
  case True
  then show ?thesis by (simp add: touch_def)
next
  case False
  show ?thesis
  proof (cases "init_entry e")
    case (Inl a)
    obtain err e' where a: "a = (err, e')" by (cases a)
    from init_entry_Inl(2) [of e err e'] Inl a False show ?thesis
      by (simp add: touch_def)
  next
    case (Inr e')
    from init_entry_Inr [OF Inr] obtain n m where
      "e' = e\<lparr>cregex := Some (compile_cregex (regex e)), t_states_or_not_met := Some n,
                       t_states_met := Some m, initialized := True\<rparr>" by blast
    with Inr False show ?thesis by (simp add: touch_def)
  qed
qed

lemma touch_loaded: "loaded_fields (touch e) = loaded_fields e"
proof -
  have "loaded_fields (e\<lparr>cregex := a, t_states_or_not_met := b, t_states_met := c, initialized := d\<rparr>) =
        loaded_fields e" for a b c d
    by (simp add: loaded_fields_def)
  with touch_keys [of e] show ?thesis by metis
qed

lemma lookup_loop_reached:
  "\<exists>reached rest. es = reached @ rest \<and>
     (\<forall>e \<in> set (butlast reached). passes e line) \<and>
     (rest \<noteq> [] \<longrightarrow> reached \<noteq> [] \<and> \<not> passes (last reached) line) \<and>
     (case lookup_loop es line of
        Inl (err, es') \<Rightarrow>
          es' = map touch reached @ rest \<and> reached \<noteq> [] \<and> \<not> passes (last reached) line \<and>
          ((\<not> initialized (last reached) \<and>
            init_entry (last reached) = Inl (err, touch (last reached))) \<or>
           (initialized (last reached) \<and> cregex (last reached) = None \<and> err = KeyError))
      | Inr (found, es') \<Rightarrow>
          es' = map touch reached @ rest \<and>
          (case found of
             None \<Rightarrow> rest = [] \<and> (\<forall>e \<in> set reached. passes e line)
           | Some e' \<Rightarrow> reached \<noteq> [] \<and> e' = touch (last reached) \<and> \<not> passes (last reached) line))"
  (is "\<exists>reached rest. ?P es reached rest")
proof (induction es)
  case Nil
  have "?P [] [] []" by simp
  then show ?case by blast
next
  case (Cons e es)
  let ?t = "if \<not> initialized e then init_entry e else Inr e"
  show ?case
  proof (cases "passes e line")
    case False
    have "?P (e # es) [e] es"
    proof (cases ?t)
      case (Inl a)
      obtain err e' where a: "a = (err, e')" by (cases a)
      with Inl have "touch e = e'" "\<not> initialized e" "init_entry e = Inl (err, e')"
        by (auto simp: touch_def split: if_splits)
      with Inl a False show ?thesis by simp
    next
      case (Inr e')
      then have t: "touch e = e'" by (auto simp: touch_def split: if_splits)
      have i: "initialized e'"
        using Inr init_entry_result(2) [of e e'] by (auto split: if_splits)
      show ?thesis
      proof (cases "cregex e'")
        case None
        have "initialized e"
        proof (rule ccontr)
          assume "\<not> initialized e"
          with Inr have "init_entry e = Inr e'" by simp
          from init_entry_result(3) [OF this] None show False by simp
        qed
        with Inr have "e' = e" by simp
        with None Inr t False \<open>initialized e\<close> show ?thesis by simp
      next
        case (Some cr)
        with False t i have "search_cregex True cr line" by (simp add: passes_def)
        with Inr t Some False show ?thesis by simp
      qed
    qed
    then show ?thesis by blast
  next
    case True
    then obtain cr where
      p: "initialized (touch e)" "cregex (touch e) = Some cr" "\<not> search_cregex True cr line"
      by (auto simp: passes_def split: option.splits)
    have t: "?t = Inr (touch e)"
    proof (cases "initialized e")
      case True
      then show ?thesis by (simp add: touch_def)
    next
      case False
      show ?thesis
      proof (cases "init_entry e")
        case (Inl a)
        obtain err e' where a: "a = (err, e')" by (cases a)
        from init_entry_Inl(2) [of e err e'] Inl a False have "\<not> initialized (touch e)"
          by (simp add: touch_def)
        with p(1) show ?thesis by simp
      next
        case (Inr e')
        with False show ?thesis by (simp add: touch_def)
      qed
    qed
    from Cons.IH obtain reached rest where r: "?P es reached rest" by blast
    have "?P (e # es) (e # reached) rest"
    proof (cases "lookup_loop es line")
      case (Inl a)
      obtain err es' where a: "a = (err, es')" by (cases a)
      from r Inl a have ne: "reached \<noteq> []" by simp
      with r Inl a t p True show ?thesis by simp
    next
      case (Inr b)
      obtain found es' where b: "b = (found, es')" by (cases b)
      show ?thesis
      proof (cases found)
        case None
        with r Inr b t p True show ?thesis by (cases "reached = []") simp_all
      next
        case (Some e')
        with r Inr b have ne: "reached \<noteq> []" by simp
        with r Inr b Some t p True show ?thesis by simp
      qed
    qed
    then show ?thesis by blast
  qed
qed

lemma lookup_after:
  "parser_after (lookup p line) =
     (case LINE_RE_match line of
        None \<Rightarrow> p
      | Some (operator, rest) \<Rightarrow>
          (case table p (upper operator) of
             None \<Rightarrow> p
           | Some es \<Rightarrow>
               p\<lparr>table := (table p)(upper operator \<mapsto>
                    (case lookup_loop es (operator @ rest) of
                       Inl (err, es') \<Rightarrow> es' | Inr (found, es') \<Rightarrow> es'))\<rparr>))"
  by (auto simp: lookup_def parser_after_def extract_mnemonic_def remove_label_def
           split: option.splits sum.splits prod.splits)

lemma touched_prefix:
  "list_all2 (\<lambda>e e'. (e' = e \<or> e' = touch e) \<and> loaded_fields e' = loaded_fields e)
     (reached @ rest) (map touch reached @ rest)"
proof (rule list_all2_appendI)
  show "list_all2 (\<lambda>e e'. (e' = e \<or> e' = touch e) \<and> loaded_fields e' = loaded_fields e)
     reached (map touch reached)"
    by (simp add: list_all2_conv_all_nth touch_loaded)
  show "list_all2 (\<lambda>e e'. (e' = e \<or> e' = touch e) \<and> loaded_fields e' = loaded_fields e) rest rest"
    by (simp add: list_all2_same)
qed

lemma lookup_reached:
  assumes re: "LINE_RE_match line = Some (operator, rst)" and es: "table p (upper operator) = Some es"
  shows "\<exists>reached rest. es = reached @ rest \<and>
     table (parser_after (lookup p line)) (upper operator) = Some (map touch reached @ rest) \<and>
     (\<forall>e \<in> set (butlast reached). passes e (operator @ rst)) \<and>
     (rest \<noteq> [] \<longrightarrow> reached \<noteq> [] \<and> \<not> passes (last reached) (operator @ rst)) \<and>
     (\<forall>e' p'. lookup p line = Inr (Some e', p') \<longrightarrow> reached \<noteq> [] \<and> e' = touch (last reached)) \<and>
     (\<forall>p'. lookup p line = Inr (None, p') \<longrightarrow>
        rest = [] \<and> (\<forall>e \<in> set reached. passes e (operator @ rst))) \<and>
     (\<forall>err p'. lookup p line = Inl (err, p') \<longrightarrow> reached \<noteq> [] \<and>
        ((\<not> initialized (last reached) \<and>
          init_entry (last reached) = Inl (err, touch (last reached))) \<or>
         (initialized (last reached) \<and> cregex (last reached) = None \<and> err = KeyError)))"
proof -
  from lookup_loop_reached [of es "operator @ rst"] obtain reached rest where
    r: "es = reached @ rest"
      "\<forall>e \<in> set (butlast reached). passes e (operator @ rst)"
      "rest \<noteq> [] \<longrightarrow> reached \<noteq> [] \<and> \<not> passes (last reached) (operator @ rst)"
      "case lookup_loop es (operator @ rst) of
        Inl (err, es') \<Rightarrow>
          es' = map touch reached @ rest \<and> reached \<noteq> [] \<and> \<not> passes (last reached) (operator @ rst) \<and>
          ((\<not> initialized (last reached) \<and>
            init_entry (last reached) = Inl (err, touch (last reached))) \<or>
           (initialized (last reached) \<and> cregex (last reached) = None \<and> err = KeyError))
      | Inr (found, es') \<Rightarrow>
          es' = map touch reached @ rest \<and>
          (case found of
             None \<Rightarrow> rest = [] \<and> (\<forall>e \<in> set reached. passes e (operator @ rst))
           | Some e' \<Rightarrow> reached \<noteq> [] \<and> e' = touch (last reached) \<and>
               \<not> passes (last reached) (operator @ rst))"
    by blast
  have lk: "lookup p line =
      (case lookup_loop es (operator @ rst) of
         Inl (err, es') \<Rightarrow> Inl (err, p\<lparr>table := (table p)(upper operator \<mapsto> es')\<rparr>)
       | Inr (found, es') \<Rightarrow> Inr (found, p\<lparr>table := (table p)(upper operator \<mapsto> es')\<rparr>))"
    using re es by (simp add: lookup_def extract_mnemonic_def remove_label_def)
  have a: "table (parser_after (lookup p line)) (upper operator) = Some (map touch reached @ rest)"
    using r(4) re es by (auto simp: lookup_after split: sum.splits prod.splits)
  have b: "\<forall>e' p'. lookup p line = Inr (Some e', p') \<longrightarrow> reached \<noteq> [] \<and> e' = touch (last reached)"
    using r(4) lk by (auto split: sum.splits prod.splits option.splits)
  have c: "\<forall>p'. lookup p line = Inr (None, p') \<longrightarrow>
        rest = [] \<and> (\<forall>e \<in> set reached. passes e (operator @ rst))"
    using r(4) lk by (auto split: sum.splits prod.splits option.splits)
  have d: "\<forall>err p'. lookup p line = Inl (err, p') \<longrightarrow> reached \<noteq> [] \<and>
        ((\<not> initialized (last reached) \<and>
          init_entry (last reached) = Inl (err, touch (last reached))) \<or>
         (initialized (last reached) \<and> cregex (last reached) = None \<and> err = KeyError))"
    using r(4) lk by (auto split: sum.splits prod.splits option.splits)
  from r(1,2,3) a b c d show ?thesis by blast
qed

lemma lookup_other_mnemonic:
  "extract_mnemonic line \<noteq> Some mnemo \<Longrightarrow>
   table (parser_after (lookup p line)) mnemo = table p mnemo"
  by (auto simp: lookup_after extract_mnemonic_def split: option.splits prod.splits)

lemma lookup_absent_mnemonic:
  "table p mnemo = None \<Longrightarrow> table (parser_after (lookup p line)) mnemo = None"
  by (auto simp: lookup_after split: option.splits prod.splits)

text \<open>
  C9 as amended. A lookup, whether it returns or raises, leaves the mnemonics of the
  table, the number and order of the records of every mnemonic and the loaded keys
  (\<^verbatim>\<open>case\<close>, \<^verbatim>\<open>regex\<close>, \<^verbatim>\<open>cycles\<close>, \<^verbatim>\<open>w\<close>) of every record as they were. The records
  of every mnemonic other than the line's are exactly as they were. Of the records of
  the line's mnemonic, the lookup reaches a first part: every record of it but the last
  is tested and does not match, and the last is the one that matches (it is the record
  returned) or the one at which the lookup raises; when the lookup returns no record it
  has reached all of them. The records after that part are exactly as they were, and a
  record of that part is left as \<open>touch\<close> gives it: an initialised record exactly as it
  was, any other one with no key changed but \<^verbatim>\<open>cregex\<close>, \<^verbatim>\<open>_t_states_or_not_met\<close>,
  \<^verbatim>\<open>_t_states_met\<close> and \<^verbatim>\<open>_initialized\<close>, the compiled pattern being stored also when
  \<^verbatim>\<open>_init_entry\<close> raises.
\<close>

theorem lookup_keeps_loaded_table:
  "(\<forall>mnemo. rel_option
      (list_all2 (\<lambda>e e'. (e' = e \<or> e' = touch e) \<and> loaded_fields e' = loaded_fields e))
      (table p mnemo) (table (parser_after (lookup p line)) mnemo)) \<and>
   (\<forall>mnemo. extract_mnemonic line \<noteq> Some mnemo \<longrightarrow>
      table (parser_after (lookup p line)) mnemo = table p mnemo) \<and>
   (\<forall>operator rst es. LINE_RE_match line = Some (operator, rst) \<and>
      table p (upper operator) = Some es \<longrightarrow>
      (\<exists>reached rest. es = reached @ rest \<and>
         table (parser_after (lookup p line)) (upper operator) = Some (map touch reached @ rest) \<and>
         (\<forall>e \<in> set (butlast reached). passes e (operator @ rst)) \<and>
         (rest \<noteq> [] \<longrightarrow> reached \<noteq> [] \<and> \<not> passes (last reached) (operator @ rst)) \<and>
         (\<forall>e' p'. lookup p line = Inr (Some e', p') \<longrightarrow> reached \<noteq> [] \<and> e' = touch (last reached)) \<and>
         (\<forall>p'. lookup p line = Inr (None, p') \<longrightarrow>
            rest = [] \<and> (\<forall>e \<in> set reached. passes e (operator @ rst))) \<and>
         (\<forall>err p'. lookup p line = Inl (err, p') \<longrightarrow> reached \<noteq> [] \<and>
            ((\<not> initialized (last reached) \<and>
              init_entry (last reached) = Inl (err, touch (last reached))) \<or>
             (initialized (last reached) \<and> cregex (last reached) = None \<and> err = KeyError))))) \<and>
   (\<forall>e. (initialized e \<longrightarrow> touch e = e) \<and>
        (\<not> initialized e \<longrightarrow> cregex (touch e) = Some (compile_cregex (regex e))) \<and>
        loaded_fields (touch e) = loaded_fields e \<and>
        touch e = e\<lparr>cregex := cregex (touch e), t_states_or_not_met := t_states_or_not_met (touch e),
                     t_states_met := t_states_met (touch e), initialized := initialized (touch e)\<rparr>)"
proof (intro conjI allI impI)
  fix mnemo
  show "rel_option
      (list_all2 (\<lambda>e e'. (e' = e \<or> e' = touch e) \<and> loaded_fields e' = loaded_fields e))
      (table p mnemo) (table (parser_after (lookup p line)) mnemo)"
  proof (cases "table p mnemo")
    case None
    then show ?thesis by (simp add: lookup_absent_mnemonic)
  next
    case (Some es)
    show ?thesis
    proof (cases "extract_mnemonic line = Some mnemo")
      case False
      then have "table (parser_after (lookup p line)) mnemo = Some es"
        using Some by (simp add: lookup_other_mnemonic)
      with Some touched_prefix [of "[]" es] show ?thesis by simp
    next
      case True
      then obtain operator rst where
        re: "LINE_RE_match line = Some (operator, rst)" "mnemo = upper operator"
        by (auto simp: extract_mnemonic_def split: option.splits)
      from lookup_reached [OF re(1), of p es] Some re(2) obtain reached rest where
        "es = reached @ rest"
        "table (parser_after (lookup p line)) mnemo = Some (map touch reached @ rest)"
        by auto
      with Some touched_prefix [of reached rest] show ?thesis by simp
    qed
  qed
next
  fix mnemo
  assume "extract_mnemonic line \<noteq> Some mnemo"
  then show "table (parser_after (lookup p line)) mnemo = table p mnemo"
    by (rule lookup_other_mnemonic)
next
  fix operator rst es
  assume "LINE_RE_match line = Some (operator, rst) \<and> table p (upper operator) = Some es"
  then have re: "LINE_RE_match line = Some (operator, rst)" and es: "table p (upper operator) = Some es"
    by simp_all
  from lookup_reached [OF re es]
  show "\<exists>reached rest. es = reached @ rest \<and>
         table (parser_after (lookup p line)) (upper operator) = Some (map touch reached @ rest) \<and>
         (\<forall>e \<in> set (butlast reached). passes e (operator @ rst)) \<and>
         (rest \<noteq> [] \<longrightarrow> reached \<noteq> [] \<and> \<not> passes (last reached) (operator @ rst)) \<and>
         (\<forall>e' p'. lookup p line = Inr (Some e', p') \<longrightarrow> reached \<noteq> [] \<and> e' = touch (last reached)) \<and>
         (\<forall>p'. lookup p line = Inr (None, p') \<longrightarrow>
            rest = [] \<and> (\<forall>e \<in> set reached. passes e (operator @ rst))) \<and>
         (\<forall>err p'. lookup p line = Inl (err, p') \<longrightarrow> reached \<noteq> [] \<and>
            ((\<not> initialized (last reached) \<and>
              init_entry (last reached) = Inl (err, touch (last reached))) \<or>
             (initialized (last reached) \<and> cregex (last reached) = None \<and> err = KeyError)))" .
next
  fix e :: entry
  assume "initialized e"
  then show "touch e = e" by (rule touch_initialized)
next
  fix e :: entry
  assume n: "\<not> initialized e"
  show "cregex (touch e) = Some (compile_cregex (regex e))"
  proof (cases "init_entry e")
    case (Inl a)
    obtain err e' where a: "a = (err, e')" by (cases a)
    from init_entry_Inl(2) [of e err e'] Inl a n show ?thesis by (simp add: touch_def)
  next
    case (Inr e')
    from init_entry_result(3) [OF Inr] Inr n show ?thesis by (simp add: touch_def)
  qed
next
  fix e :: entry
  show "loaded_fields (touch e) = loaded_fields e" by (rule touch_loaded)
next
  fix e :: entry
  show "touch e = e\<lparr>cregex := cregex (touch e), t_states_or_not_met := t_states_or_not_met (touch e),
                     t_states_met := t_states_met (touch e), initialized := initialized (touch e)\<rparr>"
    by (rule touch_keys)
qed

theorem lookup_keeps_loaded_table_witness:
  "touch nop_entry = nop_ready \<and>
   lookup sample_parser ''NOP'' =
     Inr (Some nop_ready, sample_parser\<lparr>table := (table sample_parser)(''NOP'' \<mapsto> [nop_ready])\<rparr>) \<and>
   table (parser_after (lookup sample_parser ''NOP'')) ''NOP'' = Some [nop_ready] \<and>
   table (parser_after (lookup sample_parser ''NOP'')) ''DJNZ'' = table sample_parser ''DJNZ'' \<and>
   loaded_fields nop_ready = loaded_fields nop_entry \<and>
   lookup bad_parser ''NOP'' =
     Inl (ValueError, bad_parser\<lparr>table := (table bad_parser)
            (''NOP'' \<mapsto> [bad_entry\<lparr>cregex := Some (compile_cregex [lits ''nop''])\<rparr>])\<rparr>) \<and>
   touch bad_entry = bad_entry\<lparr>cregex := Some (compile_cregex [lits ''nop''])\<rparr>"
proof -
  have em: "extract_mnemonic ''NOP'' = Some ''NOP''" by code_simp
  have rl: "remove_label ''NOP'' = Some ''NOP''" by code_simp
  have ie: "init_entry nop_entry = Inr nop_ready"
    by (simp add: init_entry_def nop_entry_def nop_ready_def json_entry_def Let_def py_int_def
          int_space_def digits_within_def max_str_digits_def is_digit_def decimal_def digit_val_def)
  have ni: "\<not> initialized nop_entry" "\<not> initialized bad_entry"
    by (simp_all add: nop_entry_def bad_entry_def json_entry_def)
  have pm: "search_cregex True (compile_cregex [lits ''nop'']) ''NOP''" by code_simp
  have lk: "lookup sample_parser ''NOP'' =
     Inr (Some nop_ready, sample_parser\<lparr>table := (table sample_parser)(''NOP'' \<mapsto> [nop_ready])\<rparr>)"
    by (simp add: lookup_def em rl sample_parser_def ie pm del: compile_cregex.simps)
       (simp add: nop_entry_def nop_ready_def json_entry_def pm del: compile_cregex.simps)
  have be: "init_entry bad_entry =
      Inl (ValueError, bad_entry\<lparr>cregex := Some (compile_cregex [lits ''nop''])\<rparr>)"
    by (simp add: init_entry_def bad_entry_def json_entry_def Let_def py_int_def
          int_space_def digits_within_def max_str_digits_def is_digit_def
          del: compile_cregex.simps)
  have bl: "lookup bad_parser ''NOP'' =
     Inl (ValueError, bad_parser\<lparr>table := (table bad_parser)
            (''NOP'' \<mapsto> [bad_entry\<lparr>cregex := Some (compile_cregex [lits ''nop''])\<rparr>])\<rparr>)"
    by (simp add: lookup_def em rl bad_parser_def be ni del: compile_cregex.simps)
  have t1: "touch nop_entry = nop_ready" by (simp add: touch_def ni ie)
  have t2: "touch bad_entry = bad_entry\<lparr>cregex := Some (compile_cregex [lits ''nop''])\<rparr>"
    by (simp add: touch_def ni be del: compile_cregex.simps)
  note inst = lookup_keeps_loaded_table [of sample_parser "''NOP''"]
  have ne: "extract_mnemonic ''NOP'' \<noteq> Some ''DJNZ''" by (simp add: em)
  from inst ne have a: "table (parser_after (lookup sample_parser ''NOP'')) ''DJNZ'' =
      table sample_parser ''DJNZ''" by blast
  from inst have "loaded_fields (touch nop_entry) = loaded_fields nop_entry" by blast
  then have b: "loaded_fields nop_ready = loaded_fields nop_entry" by (simp add: t1)
  have c: "table (parser_after (lookup sample_parser ''NOP'')) ''NOP'' = Some [nop_ready]"
    by (simp add: lk parser_after_def)
  from t1 lk c a b bl t2 show ?thesis by (intro conjI)
qed

section \<open>Lines that are not looked up\<close>

lemma lookup_no_shape:
  "LINE_RE_match line = None \<Longrightarrow> lookup p line = Inr (None, p)"
  by (simp add: lookup_def extract_mnemonic_def remove_label_def)

lemma lookup_unknown_mnemonic:
  "extract_mnemonic line = Some m \<Longrightarrow> table p m = None \<Longrightarrow> lookup p line = Inr (None, p)"
  by (auto simp: lookup_def extract_mnemonic_def remove_label_def split: option.splits prod.splits)

section \<open>The table and the order of the tests\<close>

lemma load_table_loop_result:
  "load_table_loop xs res = Inr t \<Longrightarrow>
   t m = (let g = filter (\<lambda>e. extract_mnemonic (case_str e) = Some m) xs in
          if g = [] then res m else Some ((case res m of None \<Rightarrow> [] | Some l \<Rightarrow> l) @ g))"
proof (induction xs arbitrary: res)
  case Nil
  then show ?case by simp
next
  case (Cons x xs)
  then obtain mn where mn: "extract_mnemonic (case_str x) = Some mn"
    by (auto split: option.splits)
  let ?res' = "res(mn \<mapsto> (case res mn of None \<Rightarrow> [] | Some l \<Rightarrow> l) @ [x])"
  from Cons.prems mn have "load_table_loop xs ?res' = Inr t" by simp
  from Cons.IH [OF this] mn show ?case
    by (auto simp: Let_def split: option.splits)
qed

lemma Parser_table:
  assumes "Parser json = Inr p"
  shows "table p m = (if records_of json m = [] then None else Some (records_of json m))"
proof -
  from assms obtain t where t: "load_table_loop (sort_key w json) Map.empty = Inr t" "p = \<lparr>table = t\<rparr>"
    by (auto simp: Parser_def load_table_def split: sum.splits)
  from load_table_loop_result [OF t(1), of m] t(2) show ?thesis
    by (simp add: records_of_def Let_def)
qed

lemma Parser_holds_table: "Parser json = Inr p \<Longrightarrow> holds_table json p"
  by (simp add: holds_table_def Parser_table list_all2_entry_step_refl)

lemma rel_option_list_all2_trans:
  assumes "rel_option (list_all2 entry_step) a b" "rel_option (list_all2 entry_step) b c"
  shows "rel_option (list_all2 entry_step) a c"
proof -
  have tr: "\<And>x y z. list_all2 entry_step x y \<Longrightarrow> list_all2 entry_step y z \<Longrightarrow> list_all2 entry_step x z"
    by (rule list_all2_trans [of entry_step entry_step entry_step]) (rule entry_step_trans)
  from assms show ?thesis
    by (cases a; cases b; cases c) (auto intro: tr)
qed

lemma lookup_holds_table:
  "holds_table json p \<Longrightarrow> lookup p line = Inr (found, p') \<Longrightarrow> holds_table json p'"
  unfolding holds_table_def
  by (blast intro: rel_option_list_all2_trans lookup_table_step)

lemma lookups_holds_table:
  "holds_table json p \<Longrightarrow> lookups p lines = Inr p' \<Longrightarrow> holds_table json p'"
proof (induction lines arbitrary: p)
  case Nil
  then show ?case by simp
next
  case (Cons l ls)
  then show ?case
    by (auto split: sum.splits prod.splits dest: lookup_holds_table)
qed

lemma records_of_sorted: "sorted (map w (records_of json m))"
  unfolding records_of_def by (rule sorted_filter) simp

lemma entry_test:
  assumes "entry_step e0 e" "\<not> initialized e0"
    and "(if \<not> initialized e then init_entry e else Inr e) = Inr e'"
  shows "init_entry e0 = Inr e'" "cregex e' = Some (compile_cregex (regex e0))"
  using assms
  by (auto simp: entry_step_def split: if_splits dest: init_entry_result)

lemma lookup_loop_first:
  assumes "list_all2 entry_step es0 es" "\<forall>e \<in> set es0. \<not> initialized e"
    and "lookup_loop es line = Inr (found, es')"
  shows "case found of
           None \<Rightarrow> \<forall>e \<in> set es0. \<not> pattern_matches e line
         | Some e' \<Rightarrow> \<exists>pre e post. es0 = pre @ e # post \<and> init_entry e = Inr e' \<and>
             pattern_matches e line \<and> (\<forall>x \<in> set pre. \<not> pattern_matches x line)"
  using assms
proof (induction es0 es arbitrary: found es' rule: list_all2_induct)
  case Nil
  then show ?case by simp
next
  case (Cons e0 es0 e es)
  from Cons.prems(2) obtain e1 where
    e1: "(if \<not> initialized e then init_entry e else Inr e) = Inr e1"
    by (auto split: sum.splits)
  from Cons.prems(1) have fresh: "\<not> initialized e0" by simp
  note t = entry_test [OF Cons.hyps(1) fresh e1]
  show ?case
  proof (cases "pattern_matches e0 line")
    case True
    with Cons.prems(2) e1 t have "found = Some e1"
      by (auto simp: pattern_matches_def)
    with True t(1) show ?thesis
      by (auto intro!: exI [of _ "[]"])
  next
    case False
    with Cons.prems(2) e1 t obtain rest' where
      r: "lookup_loop es line = Inr (found, rest')"
      by (auto simp: pattern_matches_def split: sum.splits)
    from Cons.prems(1) have "\<forall>e \<in> set es0. \<not> initialized e" by simp
    from Cons.IH [OF this r] False show ?thesis
    proof (cases found)
      case None
      with \<open>case found of None \<Rightarrow> _ | Some e' \<Rightarrow> _\<close> False show ?thesis by simp
    next
      case (Some e')
      with \<open>case found of None \<Rightarrow> _ | Some e' \<Rightarrow> _\<close> obtain pre x post where
        "es0 = pre @ x # post" "init_entry x = Inr e'" "pattern_matches x line"
        "\<forall>y \<in> set pre. \<not> pattern_matches y line" by auto
      with False have "e0 # es0 = (e0 # pre) @ x # post \<and> init_entry x = Inr e' \<and>
        pattern_matches x line \<and> (\<forall>y \<in> set (e0 # pre). \<not> pattern_matches y line)" by simp
      with Some show ?thesis by (simp only: option.case) blast
    qed
  qed
qed

lemma lookup_result:
  assumes h: "holds_table json p" and fresh: "\<forall>e \<in> set json. \<not> initialized e"
    and l: "lookup p line = Inr (found, p')"
  shows "case LINE_RE_match line of
           None \<Rightarrow> found = None
         | Some (operator, rest) \<Rightarrow>
             (case found of
                None \<Rightarrow> \<forall>e \<in> set (records_of json (upper operator)). \<not> pattern_matches e (operator @ rest)
              | Some e' \<Rightarrow> \<exists>pre e post. records_of json (upper operator) = pre @ e # post \<and>
                  init_entry e = Inr e' \<and> pattern_matches e (operator @ rest) \<and>
                  (\<forall>x \<in> set pre. \<not> pattern_matches x (operator @ rest)))"
proof (cases "LINE_RE_match line")
  case None
  with l show ?thesis by (simp add: lookup_no_shape)
next
  case (Some a)
  obtain operator rest where a: "a = (operator, rest)" by (cases a)
  let ?g = "records_of json (upper operator)"
  have fg: "\<forall>e \<in> set ?g. \<not> initialized e"
    using fresh by (auto simp: records_of_def)
  from h have rel: "rel_option (list_all2 entry_step) (if ?g = [] then None else Some ?g)
      (table p (upper operator))"
    by (simp add: holds_table_def)
  show ?thesis
  proof (cases "table p (upper operator)")
    case None
    with rel have "?g = []" by (auto split: if_splits)
    moreover from None l Some a have "found = None"
      by (simp add: lookup_def extract_mnemonic_def remove_label_def)
    ultimately show ?thesis using Some a by simp
  next
    case (Some es)
    with rel have es: "list_all2 entry_step ?g es" by (auto split: if_splits)
    from Some l \<open>LINE_RE_match line = Some a\<close> a obtain es' where
      "lookup_loop es (operator @ rest) = Inr (found, es')"
      by (auto simp: lookup_def extract_mnemonic_def remove_label_def split: sum.splits)
    from lookup_loop_first [OF es fg this] \<open>LINE_RE_match line = Some a\<close> a
    show ?thesis by simp
  qed
qed

lemma ld_init: "init_entry ld_hl_entry = Inr ld_hl_ready"
  by (simp add: init_entry_def ld_hl_entry_def ld_hl_ready_def json_entry_def Let_def py_int_def
        int_space_def digits_within_def max_str_digits_def is_digit_def decimal_def digit_val_def)

text \<open>
  C4. In a parser built from a table file, after any earlier lookups, the lookup of a
  line tests the records of the line's mnemonic in ascending order of weight and returns
  the first one whose pattern matches the label-stripped line: the records before it do
  not match, and no record is returned only when none matches. So the record returned has
  the least weight among the matching records; of two matching records of weights 1 and
  2 the one of weight 2 is never returned.
\<close>

theorem lookup_priority:
  assumes "Parser json = Inr p0" and "\<forall>e \<in> set json. \<not> initialized e"
    and "lookups p0 earlier = Inr p" and "lookup p line = Inr (found, p')"
    and "LINE_RE_match line = Some (operator, rest)"
  shows "sorted (map w (records_of json (upper operator))) \<and>
         (case found of
            None \<Rightarrow> \<forall>e \<in> set (records_of json (upper operator)). \<not> pattern_matches e (operator @ rest)
          | Some e' \<Rightarrow> \<exists>pre e post. records_of json (upper operator) = pre @ e # post \<and>
              init_entry e = Inr e' \<and> pattern_matches e (operator @ rest) \<and>
              (\<forall>x \<in> set pre. \<not> pattern_matches x (operator @ rest))) \<and>
         (\<forall>e1 \<in> set (records_of json (upper operator)).
            pattern_matches e1 (operator @ rest) \<longrightarrow> (\<exists>e'. found = Some e' \<and> w e' \<le> w e1))"
proof -
  let ?g = "records_of json (upper operator)"
  let ?l = "operator @ rest"
  have h: "holds_table json p"
    using assms(1,3) by (blast intro: Parser_holds_table lookups_holds_table)
  have first: "case found of
            None \<Rightarrow> \<forall>e \<in> set ?g. \<not> pattern_matches e ?l
          | Some e' \<Rightarrow> \<exists>pre e post. ?g = pre @ e # post \<and>
              init_entry e = Inr e' \<and> pattern_matches e ?l \<and>
              (\<forall>x \<in> set pre. \<not> pattern_matches x ?l)"
    using lookup_result [OF h assms(2) assms(4)] assms(5) by simp
  have least: "\<exists>e'. found = Some e' \<and> w e' \<le> w e1"
    if e1: "e1 \<in> set ?g" "pattern_matches e1 ?l" for e1
  proof (cases found)
    case None
    with first e1 show ?thesis by simp
  next
    case (Some e')
    with first obtain pre e post where d: "?g = pre @ e # post" "init_entry e = Inr e'"
      "\<forall>x \<in> set pre. \<not> pattern_matches x ?l" by auto
    from d(1,3) e1 have "e1 \<in> set (e # post)" by auto
    moreover have "sorted (map w (pre @ e # post))"
      using records_of_sorted [of json "upper operator"] d(1) by simp
    ultimately have "w e \<le> w e1" by (auto simp: sorted_append)
    moreover have "w e' = w e"
      using init_entry_result(1) [OF d(2)] by (simp add: loaded_fields_def)
    ultimately show ?thesis using Some by simp
  qed
  have srt: "sorted (map w ?g)" by (rule records_of_sorted)
  from least have "\<forall>e1 \<in> set ?g. pattern_matches e1 ?l \<longrightarrow> (\<exists>e'. found = Some e' \<and> w e' \<le> w e1)"
    by blast
  with srt first show ?thesis by (intro conjI)
qed

theorem lookup_priority_witness:
  "Parser ld_json = Inr ld_parser \<and> w ld_hl_entry = 1 \<and> w ld_any_entry = 2 \<and>
   pattern_matches ld_hl_entry ''LD A,(HL)'' \<and> pattern_matches ld_any_entry ''LD A,(HL)'' \<and>
   lookup ld_parser ''  LD A,(HL)'' =
     Inr (Some ld_hl_ready, ld_parser\<lparr>table := (table ld_parser)(''LD'' \<mapsto> [ld_hl_ready, ld_any_entry])\<rparr>) \<and>
   w ld_hl_ready \<le> w ld_hl_entry"
proof -
  have m1: "extract_mnemonic (case_str ld_any_entry) = Some ''LD''" by code_simp
  have m2: "extract_mnemonic (case_str ld_hl_entry) = Some ''LD''" by code_simp
  have srt: "sort_key w ld_json = [ld_hl_entry, ld_any_entry]"
    by (simp add: ld_json_def ld_any_entry_def ld_hl_entry_def json_entry_def)
  have P: "Parser ld_json = Inr ld_parser"
    by (simp add: Parser_def load_table_def srt m1 m2 ld_parser_def)
  have fresh: "\<forall>e \<in> set ld_json. \<not> initialized e"
    by (simp add: ld_json_def ld_any_entry_def ld_hl_entry_def json_entry_def)
  have ws: "w ld_hl_entry = 1" "w ld_any_entry = 2"
    by (simp_all add: ld_any_entry_def ld_hl_entry_def json_entry_def)
  have pm1: "pattern_matches ld_hl_entry ''LD A,(HL)''" by code_simp
  have pm2: "pattern_matches ld_any_entry ''LD A,(HL)''" by code_simp
  have re: "LINE_RE_match ''  LD A,(HL)'' = Some (''LD'', '' A,(HL)'')" by code_simp
  have up: "upper ''LD'' = ''LD''" by code_simp
  have pm1': "search_cregex True (compile_cregex [lits ''ld a,(hl)'']) ''LD A,(HL)''"
    using pm1 by (simp add: pattern_matches_def ld_hl_entry_def json_entry_def)
  have lk: "lookup ld_parser ''  LD A,(HL)'' =
     Inr (Some ld_hl_ready, ld_parser\<lparr>table := (table ld_parser)(''LD'' \<mapsto> [ld_hl_ready, ld_any_entry])\<rparr>)"
    by (simp add: lookup_def extract_mnemonic_def remove_label_def re up ld_parser_def ld_init
          del: compile_cregex.simps)
       (simp add: ld_hl_entry_def ld_hl_ready_def json_entry_def pm1' del: compile_cregex.simps)
  have g: "ld_hl_entry \<in> set (records_of ld_json ''LD'')"
    by (simp add: records_of_def srt m1 m2)
  have lks: "lookups ld_parser [] = Inr ld_parser" by simp
  from lookup_priority [OF P fresh lks lk re] g pm1 up
  have "\<exists>e'. Some ld_hl_ready = Some e' \<and> w e' \<le> w ld_hl_entry" by simp
  then show ?thesis using P ws pm1 pm2 lk by simp
qed

section \<open>The shape of a line and the anchored match\<close>

lemma of_char_lt_256: "(of_char c :: nat) < 256"
  by (cases c) simp
lemma of_char_swapcase:
  "(of_char (swapcase c) :: nat) =
     (let n = of_char c in
      if (65 \<le> n \<and> n \<le> 90) \<or> (192 \<le> n \<and> n \<le> 222 \<and> n \<noteq> 215) then n + 32
      else if (97 \<le> n \<and> n \<le> 122) \<or> (224 \<le> n \<and> n \<le> 254 \<and> n \<noteq> 247) then n - 32
      else n)"
proof -
  have lt: "(of_char c :: nat) < 256" by (rule of_char_lt_256)
  have a: "(of_char c + 32 :: nat) mod 256 = of_char c + 32" if "(of_char c :: nat) \<le> 222"
    using that by (intro mod_less) arith
  have b: "(of_char c - 32 :: nat) mod 256 = of_char c - 32"
    using lt by (intro mod_less) arith
  show ?thesis
    by (simp add: swapcase_def Let_def a b)
qed


lemma swapcase_space: "is_space (swapcase c) \<Longrightarrow> is_space c"
  unfolding is_space_def of_char_swapcase Let_def
  by (auto split: if_splits)

lemma swapcase_word:
  assumes "is_word (swapcase c)"
  shows "is_word c"
proof -
  let ?n = "of_char c :: nat"
  consider (up) "(65 \<le> ?n \<and> ?n \<le> 90) \<or> (192 \<le> ?n \<and> ?n \<le> 222 \<and> ?n \<noteq> 215)"
    | (lo) "(97 \<le> ?n \<and> ?n \<le> 122) \<or> (224 \<le> ?n \<and> ?n \<le> 254 \<and> ?n \<noteq> 247)"
    | (other) "\<not> ((65 \<le> ?n \<and> ?n \<le> 90) \<or> (192 \<le> ?n \<and> ?n \<le> 222 \<and> ?n \<noteq> 215))"
        "\<not> ((97 \<le> ?n \<and> ?n \<le> 122) \<or> (224 \<le> ?n \<and> ?n \<le> 254 \<and> ?n \<noteq> 247))"
    by blast
  then show ?thesis
  proof cases
    case up
    then have "(65 \<le> ?n \<and> ?n \<le> 90) \<or> (192 \<le> ?n \<and> ?n \<le> 214) \<or> (216 \<le> ?n \<and> ?n \<le> 246)"
      by arith
    then show ?thesis unfolding is_word_def Let_def by blast
  next
    case lo
    then have "(97 \<le> ?n \<and> ?n \<le> 122) \<or> (216 \<le> ?n \<and> ?n \<le> 246) \<or> 248 \<le> ?n"
      by arith
    then show ?thesis unfolding is_word_def Let_def by blast
  next
    case other
    have "swapcase c = c"
      unfolding swapcase_def Let_def using other by (simp only: if_False)
    with assms show ?thesis by simp
  qed
qed


lemma class_space [simp]: "class_match ic [CSpace] c = is_space c"
  by (auto simp: class_match_def dest: swapcase_space)

lemma class_word [simp]: "class_match ic [CWord] c = is_word c"
  by (auto simp: class_match_def dest: swapcase_word)


























section \<open>The outcomes of the per-line function\<close>




















end
